theory Spec2Isabelle
  imports Complex_Main "HOL-Library.Word"
begin

unbundle bit_operations_syntax

section \<open>Values of the JavaScript platform\<close>

text \<open>
  A JavaScript string is a sequence of UTF-16 code units, a \<open>Uint8Array\<close> a sequence
  of bytes. String literals of the source are ASCII and are written through \<open>str\<close>.
\<close>

type_synonym byte = "8 word"
type_synonym code_unit = "16 word"
type_synonym jsstring = "code_unit list"

definition cu :: "char \<Rightarrow> code_unit" where
  "cu c = of_char c"

definition str :: "string \<Rightarrow> jsstring" where
  "str s = map cu s"

text \<open>
  The Numbers that \<open>parseInt\<close> returns in this program: \<open>NaN\<close> or an integer. The
  strings parsed have at most two code units, so every integer is an exact double;
  \<open>-0\<close> is identified with \<open>0\<close> (both print as \<open>0\<close> and both are stored as byte 0).
\<close>

datatype number = NaN | Num int

datatype js_error = RangeError

subsection \<open>\<open>Number.prototype.toString(radix)\<close> and \<open>String.prototype.padStart\<close>\<close>

definition digit_unit :: "nat \<Rightarrow> code_unit" where
  "digit_unit d = (if d < 10 then of_nat (48 + d) else of_nat (87 + d))"

function radix_digits :: "nat \<Rightarrow> nat \<Rightarrow> jsstring" where
  "radix_digits r n =
     (if r < 2 \<or> n < r then [digit_unit n]
      else radix_digits r (n div r) @ [digit_unit (n mod r)])"
  by pat_completeness auto
termination
  by (relation "measure snd") auto

declare radix_digits.simps [simp del]

fun Number_toString :: "nat \<Rightarrow> number \<Rightarrow> jsstring" where
  "Number_toString r NaN = str ''NaN''"
| "Number_toString r (Num n) =
     (if n < 0 then cu CHR ''-'' # radix_digits r (nat (- n)) else radix_digits r (nat n))"

definition padStart :: "nat \<Rightarrow> code_unit \<Rightarrow> jsstring \<Rightarrow> jsstring" where
  "padStart n c s = replicate (n - length s) c @ s"

subsection \<open>\<open>parseInt(string, 16)\<close>\<close>

text \<open>\<open>StrWhiteSpaceChar\<close> of ECMAScript: white space and line terminators.\<close>

definition is_white_space :: "code_unit \<Rightarrow> bool" where
  "is_white_space c \<longleftrightarrow>
     c = 0x09 \<or> c = 0x0A \<or> c = 0x0B \<or> c = 0x0C \<or> c = 0x0D \<or> c = 0x20 \<or> c = 0xA0 \<or>
     c = 0x1680 \<or> (0x2000 \<le> c \<and> c \<le> 0x200A) \<or> c = 0x2028 \<or> c = 0x2029 \<or>
     c = 0x202F \<or> c = 0x205F \<or> c = 0x3000 \<or> c = 0xFEFF"

definition hex_digit_value :: "code_unit \<Rightarrow> nat option" where
  "hex_digit_value c =
     (if 0x30 \<le> c \<and> c \<le> 0x39 then Some (unat c - 48)
      else if 0x61 \<le> c \<and> c \<le> 0x66 then Some (unat c - 87)
      else if 0x41 \<le> c \<and> c \<le> 0x46 then Some (unat c - 55)
      else None)"

fun leading_hex_digits :: "jsstring \<Rightarrow> nat list" where
  "leading_hex_digits [] = []"
| "leading_hex_digits (c # cs) =
     (case hex_digit_value c of None \<Rightarrow> [] | Some d \<Rightarrow> d # leading_hex_digits cs)"

definition strip_sign :: "jsstring \<Rightarrow> jsstring" where
  "strip_sign S =
     (case S of [] \<Rightarrow> []
      | c # rest \<Rightarrow> if c = cu CHR ''+'' \<or> c = cu CHR ''-'' then rest else S)"

definition strip_0x :: "jsstring \<Rightarrow> jsstring" where
  "strip_0x S = (if take 2 S = str ''0x'' \<or> take 2 S = str ''0X'' then drop 2 S else S)"

definition parseInt16 :: "jsstring \<Rightarrow> number" where
  "parseInt16 string =
     (let S = dropWhile is_white_space string;
          sign = (if take 1 S = str ''-'' then - 1 else 1);
          Z = leading_hex_digits (strip_0x (strip_sign S))
      in if Z = [] then NaN
         else Num (sign * int (foldl (\<lambda>a d. a * 16 + d) 0 Z)))"

subsection \<open>Typed arrays\<close>

text \<open>
  \<open>new Uint8Array(len)\<close> converts \<open>len\<close> with \<open>ToIndex\<close>: the fraction is dropped, and
  a result outside \<open>0 .. 2^53 - 1\<close> raises \<open>RangeError\<close>. Storing a Number converts
  it with \<open>ToUint8\<close> (\<open>NaN\<close> becomes 0, an integer is taken modulo 256); a store
  outside the array is ignored.
\<close>

definition new_Uint8Array :: "rat \<Rightarrow> js_error + byte list" where
  "new_Uint8Array len =
     (let n = (if len < 0 then \<lceil>len\<rceil> else \<lfloor>len\<rfloor>)
      in if 0 \<le> n \<and> n \<le> 2 ^ 53 - 1 then Inr (replicate (nat n) 0) else Inl RangeError)"

fun ToUint8 :: "number \<Rightarrow> byte" where
  "ToUint8 NaN = 0"
| "ToUint8 (Num n) = word_of_int n"

definition typed_set :: "byte list \<Rightarrow> nat \<Rightarrow> byte \<Rightarrow> byte list" where
  "typed_set arr k v = (if k < length arr then arr[k := v] else arr)"

section \<open>Encoding helpers of \<open>SignatureDemo.tsx\<close>\<close>

text \<open>
  \<^verbatim>\<open>arr.map((b) => b.toString(16).padStart(2, '0')).join('')\<close>
\<close>

definition byte_hex :: "byte \<Rightarrow> jsstring" where
  "byte_hex b = padStart 2 (cu CHR ''0'') (Number_toString 16 (Num (uint b)))"

definition bufferToHex :: "byte list \<Rightarrow> jsstring" where
  "bufferToHex buf = concat (map byte_hex buf)"

text \<open>
  \<^verbatim>\<open>for (let i = 0; i < hex.length; i += 2) buf[i / 2] = parseInt(hex.substr(i, 2), 16)\<close>
  The index \<open>i\<close> is even throughout, so \<open>i / 2\<close> is the integer \<open>i div 2\<close>.
\<close>

function hexToBuffer_loop :: "jsstring \<Rightarrow> nat \<Rightarrow> byte list \<Rightarrow> byte list" where
  "hexToBuffer_loop hex i buf =
     (if i < length hex
      then hexToBuffer_loop hex (i + 2)
             (typed_set buf (i div 2) (ToUint8 (parseInt16 (take 2 (drop i hex)))))
      else buf)"
  by pat_completeness auto
termination
  by (relation "measure (\<lambda>(hex, i, buf). length hex - i)") auto

declare hexToBuffer_loop.simps [simp del]

definition hexToBuffer :: "jsstring \<Rightarrow> js_error + byte list" where
  "hexToBuffer hex =
     (case new_Uint8Array (of_nat (length hex) / 2) of
        Inl e \<Rightarrow> Inl e
      | Inr buf \<Rightarrow> Inr (hexToBuffer_loop hex 0 buf))"


section \<open>\<open>TextEncoder.encode\<close>\<close>

text \<open>
  The platform converts the string to scalar values (a surrogate pair is one code point,
  a lone surrogate becomes U+FFFD) and writes each in UTF-8.
\<close>

definition is_high_surrogate :: "code_unit \<Rightarrow> bool" where
  "is_high_surrogate c \<longleftrightarrow> 0xD800 \<le> c \<and> c \<le> 0xDBFF"

definition is_low_surrogate :: "code_unit \<Rightarrow> bool" where
  "is_low_surrogate c \<longleftrightarrow> 0xDC00 \<le> c \<and> c \<le> 0xDFFF"

definition utf8_scalar :: "nat \<Rightarrow> byte list" where
  "utf8_scalar cp =
     (if cp < 0x80 then [of_nat cp]
      else if cp < 0x800 then [of_nat (0xC0 + cp div 64), of_nat (0x80 + cp mod 64)]
      else if cp < 0x10000 then
        [of_nat (0xE0 + cp div 4096), of_nat (0x80 + cp div 64 mod 64), of_nat (0x80 + cp mod 64)]
      else
        [of_nat (0xF0 + cp div 262144), of_nat (0x80 + cp div 4096 mod 64),
         of_nat (0x80 + cp div 64 mod 64), of_nat (0x80 + cp mod 64)])"

fun TextEncoder_encode :: "jsstring \<Rightarrow> byte list" where
  "TextEncoder_encode [] = []"
| "TextEncoder_encode [c] =
     (if is_high_surrogate c \<or> is_low_surrogate c then utf8_scalar 0xFFFD
      else utf8_scalar (unat c))"
| "TextEncoder_encode (c # d # cs) =
     (if is_high_surrogate c then
        (if is_low_surrogate d
         then utf8_scalar (0x10000 + (unat c - 0xD800) * 0x400 + (unat d - 0xDC00))
                @ TextEncoder_encode cs
         else utf8_scalar 0xFFFD @ TextEncoder_encode (d # cs))
      else if is_low_surrogate c then utf8_scalar 0xFFFD @ TextEncoder_encode (d # cs)
      else utf8_scalar (unat c) @ TextEncoder_encode (d # cs))"

section \<open>\<open>crypto.subtle.digest('SHA-256', bytes)\<close>\<close>

text \<open>
  The platform's digest, as FIPS 180-4 defines it. The initial hash value and the round
  constants are the first 32 bits of the fractional parts of the square roots of the
  first 8 primes and of the cube roots of the first 64 primes.
\<close>

type_synonym word32 = "32 word"

definition sha256_H0 :: "word32 list" where
  "sha256_H0 =
     [1779033703, 3144134277, 1013904242, 2773480762, 1359893119, 2600822924,
      528734635, 1541459225]"

definition sha256_K :: "word32 list" where
  "sha256_K =
     [1116352408, 1899447441, 3049323471, 3921009573, 961987163, 1508970993,
      2453635748, 2870763221, 3624381080, 310598401, 607225278, 1426881987,
      1925078388, 2162078206, 2614888103, 3248222580, 3835390401, 4022224774,
      264347078, 604807628, 770255983, 1249150122, 1555081692, 1996064986,
      2554220882, 2821834349, 2952996808, 3210313671, 3336571891, 3584528711,
      113926993, 338241895, 666307205, 773529912, 1294757372, 1396182291,
      1695183700, 1986661051, 2177026350, 2456956037, 2730485921, 2820302411,
      3259730800, 3345764771, 3516065817, 3600352804, 4094571909, 275423344,
      430227734, 506948616, 659060556, 883997877, 958139571, 1322822218,
      1537002063, 1747873779, 1955562222, 2024104815, 2227730452, 2361852424,
      2428436474, 2756734187, 3204031479, 3329325298]"

definition rotr :: "nat \<Rightarrow> word32 \<Rightarrow> word32" where
  "rotr n x = drop_bit n x OR push_bit (32 - n) x"

definition Ch :: "word32 \<Rightarrow> word32 \<Rightarrow> word32 \<Rightarrow> word32" where
  "Ch x y z = (x AND y) XOR (NOT x AND z)"

definition Maj :: "word32 \<Rightarrow> word32 \<Rightarrow> word32 \<Rightarrow> word32" where
  "Maj x y z = (x AND y) XOR (x AND z) XOR (y AND z)"

definition bsig0 :: "word32 \<Rightarrow> word32" where
  "bsig0 x = rotr 2 x XOR rotr 13 x XOR rotr 22 x"

definition bsig1 :: "word32 \<Rightarrow> word32" where
  "bsig1 x = rotr 6 x XOR rotr 11 x XOR rotr 25 x"

definition ssig0 :: "word32 \<Rightarrow> word32" where
  "ssig0 x = rotr 7 x XOR rotr 18 x XOR drop_bit 3 x"

definition ssig1 :: "word32 \<Rightarrow> word32" where
  "ssig1 x = rotr 17 x XOR rotr 19 x XOR drop_bit 10 x"

definition length_be64 :: "64 word \<Rightarrow> byte list" where
  "length_be64 w =
     [ucast (drop_bit 56 w), ucast (drop_bit 48 w), ucast (drop_bit 40 w), ucast (drop_bit 32 w),
      ucast (drop_bit 24 w), ucast (drop_bit 16 w), ucast (drop_bit 8 w), ucast w]"

definition sha256_pad :: "byte list \<Rightarrow> byte list" where
  "sha256_pad msg =
     msg @ [0x80] @ replicate ((119 - length msg mod 64) mod 64) 0 @ length_be64 (8 * of_nat (length msg))"

fun be_words :: "byte list \<Rightarrow> word32 list" where
  "be_words (a # b # c # d # rest) =
     (push_bit 24 (ucast a) OR push_bit 16 (ucast b) OR push_bit 8 (ucast c) OR ucast d)
       # be_words rest"
| "be_words rest = []"

definition word_be :: "word32 \<Rightarrow> byte list" where
  "word_be w = [ucast (drop_bit 24 w), ucast (drop_bit 16 w), ucast (drop_bit 8 w), ucast w]"

fun extend_schedule :: "nat \<Rightarrow> word32 list \<Rightarrow> word32 list" where
  "extend_schedule 0 W = W"
| "extend_schedule (Suc n) W =
     extend_schedule n
       (W @ [ssig1 (W ! (length W - 2)) + W ! (length W - 7) + ssig0 (W ! (length W - 15))
               + W ! (length W - 16)])"

fun sha256_round :: "word32 list \<Rightarrow> word32 \<times> word32 \<Rightarrow> word32 list" where
  "sha256_round [a, b, c, d, e, f, g, h] (k, w) =
     [h + bsig1 e + Ch e f g + k + w + (bsig0 a + Maj a b c), a, b, c,
      d + (h + bsig1 e + Ch e f g + k + w), e, f, g]"
| "sha256_round st kw = st"

definition sha256_compress :: "word32 list \<Rightarrow> byte list \<Rightarrow> word32 list" where
  "sha256_compress H block =
     map2 (+) H (foldl sha256_round H (zip sha256_K (extend_schedule 48 (be_words block))))"

function blocks64 :: "byte list \<Rightarrow> byte list list" where
  "blocks64 bs = (if bs = [] then [] else take 64 bs # blocks64 (drop 64 bs))"
  by pat_completeness auto
termination
  by (relation "measure length") auto

declare blocks64.simps [simp del]

definition SHA256 :: "byte list \<Rightarrow> byte list" where
  "SHA256 msg = concat (map word_be (foldl sha256_compress sha256_H0 (blocks64 (sha256_pad msg))))"

section \<open>The avalanche demo\<close>

text \<open>
  \<^verbatim>\<open>const arr = Array.from(new Uint8Array(buf))\<close>
  \<^verbatim>\<open>return arr.map((b) => b.toString(16).padStart(2, '0')).join('')\<close>
\<close>

definition sha256HexFromBytes :: "byte list \<Rightarrow> jsstring" where
  "sha256HexFromBytes bytes =
     (let arr = SHA256 bytes
      in concat (map (\<lambda>b. padStart 2 (cu CHR ''0'') (Number_toString 16 (Num (uint b)))) arr))"

definition sha256Hex :: "jsstring \<Rightarrow> jsstring" where
  "sha256Hex input = sha256HexFromBytes (TextEncoder_encode input)"

text \<open>
  \<^verbatim>\<open>hex.split('').map((h) => parseInt(h, 16).toString(2).padStart(4, '0')).join('')\<close>
\<close>

definition hexToBits :: "jsstring \<Rightarrow> jsstring" where
  "hexToBits hex =
     concat (map (\<lambda>h. padStart 4 (cu CHR ''0'') (Number_toString 2 (parseInt16 h)))
               (map (\<lambda>c. [c]) hex))"

text \<open>
  \<^verbatim>\<open>for (let i = 0; i < Math.min(a.length, b.length); i++) if (a[i] !== b[i]) cnt++\<close>
\<close>

function hamming_loop :: "jsstring \<Rightarrow> jsstring \<Rightarrow> nat \<Rightarrow> nat \<Rightarrow> nat" where
  "hamming_loop a b i cnt =
     (if i < min (length a) (length b)
      then hamming_loop a b (i + 1) (if a ! i \<noteq> b ! i then cnt + 1 else cnt)
      else cnt)"
  by pat_completeness auto
termination
  by (relation "measure (\<lambda>(a, b, i, cnt). min (length a) (length b) - i)") auto

declare hamming_loop.simps [simp del]

definition hamming :: "jsstring \<Rightarrow> jsstring \<Rightarrow> nat" where
  "hamming a b = hamming_loop a b 0 0"

subsection \<open>The mutation helpers\<close>

text \<open>
  The arguments \<open>byteIndex\<close>, \<open>bitMask\<close> and \<open>index\<close> are integer-valued Numbers.
  The remainder \<open>%\<close> of JavaScript takes the sign of the dividend and is exact; the
  divisor is the length of a non-empty array at both uses. A typed array read outside the
  array is \<open>undefined\<close>, which \<open>^\<close> converts to 0; \<open>^\<close> works on the 32-bit values of
  its operands.
\<close>

definition js_rem :: "int \<Rightarrow> int \<Rightarrow> int" where
  "js_rem a b = sgn a * (\<bar>a\<bar> mod \<bar>b\<bar>)"

definition ToInt32 :: "int \<Rightarrow> int" where
  "ToInt32 n = signed_take_bit 31 n"

definition js_xor :: "int \<Rightarrow> int \<Rightarrow> int" where
  "js_xor a b = ToInt32 a XOR ToInt32 b"

definition typed_get_int32 :: "byte list \<Rightarrow> int \<Rightarrow> int" where
  "typed_get_int32 arr k = (if 0 \<le> k \<and> k < int (length arr) then uint (arr ! nat k) else 0)"

definition typed_set_int :: "byte list \<Rightarrow> int \<Rightarrow> number \<Rightarrow> byte list" where
  "typed_set_int arr k v =
     (if 0 \<le> k \<and> k < int (length arr) then arr[nat k := ToUint8 v] else arr)"

definition mutateByteFlip :: "jsstring \<Rightarrow> int \<Rightarrow> int \<Rightarrow> byte list" where
  "mutateByteFlip input byteIndex bitMask =
     (let enc = TextEncoder_encode input
      in if length enc = 0 then enc
         else let arr = enc
              in typed_set_int arr (js_rem byteIndex (int (length arr)))
                   (Num (js_xor (typed_get_int32 arr (js_rem byteIndex (int (length arr))))
                           bitMask)))"

text \<open>
  \<open>new TextEncoder().encode(newChar)[0]\<close> is \<open>undefined\<close> for the empty string, and a
  typed array stores \<open>undefined\<close> as 0.
\<close>

definition first_byte :: "byte list \<Rightarrow> number" where
  "first_byte bs = (case bs of [] \<Rightarrow> NaN | b # rest \<Rightarrow> Num (uint b))"

text \<open>
  \<open>index + arr.length\<close> is an addition of doubles: the exact sum is rounded to the
  nearest double, to the one with the even significand when two are equally near, and a
  sum of magnitude \<open>2^1024\<close> or more is an infinity (\<open>None\<close>). Integers below \<open>2^53\<close>
  in magnitude are doubles themselves. The length of a typed array is an integer below
  \<open>2^53\<close>; for a longer list, which no typed array is, the sum is left exact. The
  remainder of an infinity is \<open>NaN\<close>, and a store at an index that is no integer within
  the array is ignored.
\<close>

function bit_width :: "nat \<Rightarrow> nat" where
  "bit_width n = (if n = 0 then 0 else Suc (bit_width (n div 2)))"
  by pat_completeness auto
termination
  by (relation "measure id") auto

declare bit_width.simps [simp del]

definition round_double :: "int \<Rightarrow> int option" where
  "round_double n =
     (let a = nat \<bar>n\<bar>;
          u = 2 ^ (bit_width a - 53);
          q = a div u;
          r = a mod u;
          m = (if 2 * r < u \<or> (2 * r = u \<and> even q) then q else q + 1)
      in if m * u < 2 ^ 1024 then Some (sgn n * int (m * u)) else None)"

definition js_add_length :: "int \<Rightarrow> nat \<Rightarrow> int option" where
  "js_add_length x n = (if n < 2 ^ 53 then round_double (x + int n) else Some (x + int n))"

definition js_rem_number :: "int option \<Rightarrow> int \<Rightarrow> number" where
  "js_rem_number s b = (case s of None \<Rightarrow> NaN | Some a \<Rightarrow> Num (js_rem a b))"

definition typed_set_number :: "byte list \<Rightarrow> number \<Rightarrow> number \<Rightarrow> byte list" where
  "typed_set_number arr k v = (case k of NaN \<Rightarrow> arr | Num i \<Rightarrow> typed_set_int arr i v)"

definition mutateCharChange :: "jsstring \<Rightarrow> int \<Rightarrow> jsstring \<Rightarrow> byte list" where
  "mutateCharChange input index newChar =
     (let enc = TextEncoder_encode input
      in if length enc = 0 then enc
         else let arr = enc
              in typed_set_number arr
                   (js_rem_number (js_add_length index (length arr)) (int (length arr)))
                   (first_byte (TextEncoder_encode newChar)))"

text \<open>
  The same two helpers with the typed arrays in a store, an array's address being its
  position: \<open>encode\<close> and \<open>new Uint8Array(enc)\<close> each allocate a fresh array, the
  latter a copy, and the assignment writes into the copy.
\<close>

type_synonym heap = "byte list list"

definition alloc :: "byte list \<Rightarrow> heap \<Rightarrow> nat \<times> heap" where
  "alloc bs h = (length h, h @ [bs])"

definition heap_set :: "nat \<Rightarrow> int \<Rightarrow> number \<Rightarrow> heap \<Rightarrow> heap" where
  "heap_set a k v h = h[a := typed_set_int (h ! a) k v]"

definition mutateByteFlip_heap :: "jsstring \<Rightarrow> int \<Rightarrow> int \<Rightarrow> heap \<Rightarrow> nat \<times> heap" where
  "mutateByteFlip_heap input byteIndex bitMask h =
     (case alloc (TextEncoder_encode input) h of
        (enc, h1) \<Rightarrow>
          if length (h1 ! enc) = 0 then (enc, h1)
          else (case alloc (h1 ! enc) h1 of
                  (arr, h2) \<Rightarrow>
                    (arr, heap_set arr (js_rem byteIndex (int (length (h2 ! arr))))
                            (Num (js_xor (typed_get_int32 (h2 ! arr)
                                            (js_rem byteIndex (int (length (h2 ! arr)))))
                                    bitMask)) h2)))"

definition heap_set_number :: "nat \<Rightarrow> number \<Rightarrow> number \<Rightarrow> heap \<Rightarrow> heap" where
  "heap_set_number a k v h = h[a := typed_set_number (h ! a) k v]"

definition mutateCharChange_heap :: "jsstring \<Rightarrow> int \<Rightarrow> jsstring \<Rightarrow> heap \<Rightarrow> nat \<times> heap" where
  "mutateCharChange_heap input index newChar h =
     (case alloc (TextEncoder_encode input) h of
        (enc, h1) \<Rightarrow>
          if length (h1 ! enc) = 0 then (enc, h1)
          else (case alloc (h1 ! enc) h1 of
                  (arr, h2) \<Rightarrow>
                    (case alloc (TextEncoder_encode newChar) h2 of
                       (nc, h3) \<Rightarrow>
                         (arr, heap_set_number arr
                                 (js_rem_number (js_add_length index (length (h3 ! arr)))
                                    (int (length (h3 ! arr))))
                                 (first_byte (h3 ! nc)) h3))))"

subsection \<open>\<open>run\<close> and the comparison table\<close>

record variant =
  name :: jsstring
  bytes :: "byte list"

record digest_result = variant +
  hex :: jsstring
  bits :: jsstring

definition variants :: "jsstring \<Rightarrow> variant list" where
  "variants input =
     [\<lparr>name = str ''original'', bytes = TextEncoder_encode input\<rparr>,
      \<lparr>name = str ''append space'', bytes = TextEncoder_encode (input @ str '' '')\<rparr>,
      \<lparr>name = str ''change first char'', bytes = mutateCharChange input 0 (str ''Z'')\<rparr>,
      \<lparr>name = str ''flip one bit in first byte'', bytes = mutateByteFlip input 0 1\<rparr>,
      \<lparr>name = str ''flip 0x80 bit in first byte'', bytes = mutateByteFlip input 0 0x80\<rparr>,
      \<lparr>name = str ''change last char'', bytes = mutateCharChange input (- 1) (str ''z'')\<rparr>]"

definition compute :: "variant \<Rightarrow> digest_result" where
  "compute v =
     \<lparr>name = name v, bytes = bytes v, hex = sha256HexFromBytes (bytes v),
      bits = hexToBits (sha256HexFromBytes (bytes v))\<rparr>"

definition run :: "jsstring \<Rightarrow> digest_result list" where
  "run input = map compute (variants input)"

text \<open>
  \<open>Number.prototype.toFixed(f)\<close> on a finite \<open>x\<close> below \<open>10^21\<close>: the integer \<open>n\<close>
  with \<open>n / 10^f\<close> nearest to \<open>x\<close> (the larger one of two), printed with \<open>f\<close> digits
  after the point. In \<open>(dist / 256) * 100\<close> the division is by a power of two and the
  product needs at most 13 bits before and 6 after the binary point when
  \<open>dist \<le> 256\<close>, so the double is the exact rational.
\<close>

definition toFixed :: "nat \<Rightarrow> rat \<Rightarrow> jsstring" where
  "toFixed f x =
     (let s = (if x < 0 then str ''-'' else []);
          m = radix_digits 10 (nat \<lfloor>\<bar>x\<bar> * 10 ^ f + 1 / 2\<rfloor>);
          m' = (if f \<noteq> 0 \<and> length m \<le> f then replicate (f + 1 - length m) (cu CHR ''0'') @ m
                else m)
      in if f = 0 then s @ m'
         else s @ take (length m' - f) m' @ str ''.'' @ drop (length m' - f) m')"

record table_row =
  cell_name :: jsstring
  cell_hex :: jsstring
  cell_changed :: jsstring

definition baseBits :: "digest_result list \<Rightarrow> jsstring" where
  "baseBits results = (if length results \<noteq> 0 then bits (results ! 0) else [])"

definition dist :: "jsstring \<Rightarrow> digest_result \<Rightarrow> nat" where
  "dist base r = (if base \<noteq> [] then hamming base (bits r) else 0)"

definition pct :: "nat \<Rightarrow> jsstring" where
  "pct d = toFixed 1 ((of_nat d / 256) * 100)"

definition table_row_of :: "jsstring \<Rightarrow> nat \<times> digest_result \<Rightarrow> table_row" where
  "table_row_of base ir =
     (case ir of
        (i, r) \<Rightarrow>
          if i = 0 then \<lparr>cell_name = name r, cell_hex = hex r, cell_changed = str ''-''\<rparr>
          else \<lparr>cell_name = name r, cell_hex = hex r,
                cell_changed =
                  Number_toString 10 (Num (int (dist base r))) @ str ''/256 bits changed (''
                    @ pct (dist base r) @ str ''%)''\<rparr>)"

definition table_rows :: "digest_result list \<Rightarrow> table_row list" where
  "table_rows results = map (table_row_of (baseBits results)) (enumerate 0 results)"

section \<open>The signature demo\<close>

text \<open>
  Key generation, signing and verification are the platform's (\<open>crypto.subtle\<close>, ECDSA
  on P-256): a provider \<open>P\<close> stands for them. Its entropy, for the key pair and for the
  nonce of a signature, is an argument.
\<close>

record algorithm =
  alg_name :: string
  alg_param :: string

record ('sk, 'pk) KeyPair =
  privateKey :: 'sk
  publicKey :: 'pk

record ('sk, 'pk, 'r) subtle =
  subtle_generateKey :: "'r \<Rightarrow> algorithm \<Rightarrow> ('sk, 'pk) KeyPair"
  subtle_sign :: "'r \<Rightarrow> algorithm \<Rightarrow> 'sk \<Rightarrow> byte list \<Rightarrow> byte list"
  subtle_verify :: "algorithm \<Rightarrow> 'pk \<Rightarrow> byte list \<Rightarrow> byte list \<Rightarrow> bool"

definition generateKeyPair :: "('sk, 'pk, 'r) subtle \<Rightarrow> 'r \<Rightarrow> ('sk, 'pk) KeyPair" where
  "generateKeyPair P r =
     (let pair = subtle_generateKey P r \<lparr>alg_name = ''ECDSA'', alg_param = ''P-256''\<rparr>
      in \<lparr>privateKey = privateKey pair, publicKey = publicKey pair\<rparr>)"

definition signMessage :: "('sk, 'pk, 'r) subtle \<Rightarrow> 'r \<Rightarrow> jsstring \<Rightarrow> 'sk \<Rightarrow> byte list" where
  "signMessage P r message sk =
     (let enc = TextEncoder_encode message
      in subtle_sign P r \<lparr>alg_name = ''ECDSA'', alg_param = ''SHA-256''\<rparr> sk enc)"

definition verifySignature ::
    "('sk, 'pk, 'r) subtle \<Rightarrow> jsstring \<Rightarrow> byte list \<Rightarrow> 'pk \<Rightarrow> bool" where
  "verifySignature P message signature pk =
     (let enc = TextEncoder_encode message
      in subtle_verify P \<lparr>alg_name = ''ECDSA'', alg_param = ''SHA-256''\<rparr> pk signature enc)"

section \<open>Words of the specification\<close>

text \<open>
  The specification's bit strings: the binary digits of a value in a field of \<open>w\<close>
  digits, the most significant first.
\<close>

definition bits_msb_first :: "nat \<Rightarrow> nat \<Rightarrow> jsstring" where
  "bits_msb_first w v =
     map (\<lambda>i. if bit v (w - 1 - i) then cu CHR ''1'' else cu CHR ''0'') [0..<w]"

section \<open>Properties of the platform functions and of the helpers\<close>

subsection \<open>Hexadecimal digits\<close>

lemma upt16: "[0..<16] = [0, 1, 2, 3, 4, 5, 6, 7, 8, 9, 10, 11, 12, 13, 14, 15::nat]"
  by (simp add: upt_rec)

lemma nibble_all:
  assumes "d < 16" and "list_all P [0, 1, 2, 3, 4, 5, 6, 7, 8, 9, 10, 11, 12, 13, 14, 15::nat]"
  shows "P d"
proof -
  from assms(1) have "d \<in> set [0..<16]" by simp
  with assms(2) show ?thesis unfolding upt16 list_all_iff by blast
qed

lemma hex_digit_value_digit_unit: "d < 16 \<Longrightarrow> hex_digit_value (digit_unit d) = Some d"
  by (erule nibble_all) (simp add: hex_digit_value_def digit_unit_def)

lemma digit_unit_not_space: "d < 16 \<Longrightarrow> \<not> is_white_space (digit_unit d)"
  by (erule nibble_all) (simp add: is_white_space_def digit_unit_def)

lemma digit_unit_not_sign:
  "d < 16 \<Longrightarrow> digit_unit d \<noteq> cu CHR ''+'' \<and> digit_unit d \<noteq> cu CHR ''-''"
  by (erule nibble_all) (simp add: cu_def digit_unit_def)

lemma digit_unit_not_x:
  "d < 16 \<Longrightarrow> digit_unit d \<noteq> cu CHR ''x'' \<and> digit_unit d \<noteq> cu CHR ''X''"
  by (erule nibble_all) (simp add: cu_def digit_unit_def)

lemma digit_unit_lower_hex: "d < 16 \<Longrightarrow> digit_unit d \<in> set (str ''0123456789abcdef'')"
  by (erule nibble_all) (simp add: cu_def str_def digit_unit_def)

lemma hex_digit_value_less: "hex_digit_value c = Some d \<Longrightarrow> d < 16"
  by (auto simp: hex_digit_value_def word_le_nat_alt split: if_splits)

lemma parseInt16_pair:
  assumes "a < 16" "b < 16"
  shows "parseInt16 [digit_unit a, digit_unit b] = Num (int (a * 16 + b))"
proof -
  let ?s = "[digit_unit a, digit_unit b]"
  have 1: "dropWhile is_white_space ?s = ?s"
    using digit_unit_not_space [OF assms(1)] by simp
  have 2: "strip_sign ?s = ?s"
    using digit_unit_not_sign [OF assms(1)] by (simp add: strip_sign_def)
  have 3: "strip_0x ?s = ?s"
    using digit_unit_not_x [OF assms(2)] by (simp add: strip_0x_def str_def)
  have 4: "leading_hex_digits ?s = [a, b]"
    by (simp add: hex_digit_value_digit_unit assms)
  have 5: "take 1 ?s \<noteq> str ''-''"
    using digit_unit_not_sign [OF assms(1)] by (simp add: str_def)
  show ?thesis
    unfolding parseInt16_def 1 Let_def 2 3 4 using 5 by simp
qed

lemma radix_digits_16_byte:
  "n < 256 \<Longrightarrow> radix_digits 16 n =
     (if n < 16 then [digit_unit n] else [digit_unit (n div 16), digit_unit (n mod 16)])"
  by (subst radix_digits.simps, simp, subst radix_digits.simps, simp add: less_mult_imp_div_less)

lemma byte_hex_digits:
  "byte_hex b = [digit_unit (unat b div 16), digit_unit (unat b mod 16)]"
proof -
  have lt: "unat b < 256" using unsigned_less [of b, where ?'a = nat] by simp
  have "nat (uint b) = unat b" by simp
  then show ?thesis
    using radix_digits_16_byte [OF lt]
    by (simp add: byte_hex_def padStart_def cu_def digit_unit_def)
qed

lemma length_byte_hex [simp]: "length (byte_hex b) = 2"
  by (simp add: byte_hex_digits)

lemma byte_nibbles: "unat (b :: byte) div 16 < 16" "unat b mod 16 < 16"
  using unsigned_less [of b, where ?'a = nat] by (simp_all add: less_mult_imp_div_less)

lemma ToUint8_parseInt16_byte_hex: "ToUint8 (parseInt16 (byte_hex b)) = b"
proof -
  have "parseInt16 (byte_hex b) = Num (int (unat b div 16 * 16 + unat b mod 16))"
    unfolding byte_hex_digits by (rule parseInt16_pair) (rule byte_nibbles)+
  also have "unat b div 16 * 16 + unat b mod 16 = unat b" by simp
  finally show ?thesis by simp
qed

lemma length_bufferToHex: "length (bufferToHex bs) = 2 * length bs"
  by (induction bs) (simp_all add: bufferToHex_def)

lemma chunk_bufferToHex:
  "k < length bs \<Longrightarrow> take 2 (drop (2 * k) (bufferToHex bs)) = byte_hex (bs ! k)"
proof (induction bs arbitrary: k)
  case Nil
  then show ?case by simp
next
  case (Cons b bs)
  show ?case
  proof (cases k)
    case 0
    then show ?thesis by (simp add: bufferToHex_def)
  next
    case (Suc j)
    with Cons.prems have "j < length bs" by simp
    from Cons.IH [OF this] Suc show ?thesis by (simp add: bufferToHex_def)
  qed
qed

subsection \<open>The decoding loop\<close>

lemma length_hexToBuffer_loop [simp]: "length (hexToBuffer_loop s i buf) = length buf"
  by (induction s i buf rule: hexToBuffer_loop.induct)
     (subst hexToBuffer_loop.simps, simp add: typed_set_def)

lemma nth_hexToBuffer_loop:
  "k < length buf \<Longrightarrow> even i \<Longrightarrow>
   hexToBuffer_loop s i buf ! k =
     (if i div 2 \<le> k \<and> 2 * k < length s
      then ToUint8 (parseInt16 (take 2 (drop (2 * k) s))) else buf ! k)"
proof (induction s i buf rule: hexToBuffer_loop.induct)
  case (1 s i buf)
  show ?case
  proof (cases "i < length s")
    case False
    with "1.prems" show ?thesis
      by (subst hexToBuffer_loop.simps) auto
  next
    case True
    from "1.prems" obtain j where j: "i = 2 * j" by (auto elim: evenE)
    have "hexToBuffer_loop s i buf ! k =
      hexToBuffer_loop s (i + 2)
             (typed_set buf (i div 2) (ToUint8 (parseInt16 (take 2 (drop i s))))) ! k"
      using True by (subst hexToBuffer_loop.simps) simp
    also have "\<dots> = (if (i + 2) div 2 \<le> k \<and> 2 * k < length s
      then ToUint8 (parseInt16 (take 2 (drop (2 * k) s)))
      else typed_set buf (i div 2) (ToUint8 (parseInt16 (take 2 (drop i s)))) ! k)"
      using "1.IH" [OF True] "1.prems" by (simp add: typed_set_def)
    also have "\<dots> = (if i div 2 \<le> k \<and> 2 * k < length s
      then ToUint8 (parseInt16 (take 2 (drop (2 * k) s))) else buf ! k)"
      using True "1.prems" j
      by (auto simp: typed_set_def nth_list_update not_less_eq_eq dest: le_antisym)
    finally show ?thesis .
  qed
qed

lemma new_Uint8Array_half:
  "n div 2 < 2 ^ 53 \<Longrightarrow> new_Uint8Array (of_nat n / 2) = Inr (replicate (n div 2) 0)"
proof -
  assume n: "n div 2 < 2 ^ 53"
  have "\<lfloor>(of_nat n :: rat) / 2\<rfloor> = int (n div 2)"
    using floor_divide_of_nat_eq [of n 2, where ?'a = rat] by simp
  moreover have "int (n div 2) \<le> 2 ^ 53 - 1" using n by simp
  ultimately show ?thesis
    by (simp add: new_Uint8Array_def Let_def)
qed

lemma hexToBuffer_closed:
  assumes "length s div 2 < 2 ^ 53"
  shows "hexToBuffer s =
    Inr (map (\<lambda>k. ToUint8 (parseInt16 (take 2 (drop (2 * k) s)))) [0..<length s div 2])"
proof -
  have "hexToBuffer_loop s 0 (replicate (length s div 2) 0) =
    map (\<lambda>k. ToUint8 (parseInt16 (take 2 (drop (2 * k) s)))) [0..<length s div 2]"
    by (rule nth_equalityI) (auto simp: nth_hexToBuffer_loop)
  then show ?thesis
    using new_Uint8Array_half [OF assms] by (simp add: hexToBuffer_def)
qed

lemma hexToBuffer_bufferToHex:
  assumes "length b < 2 ^ 53"
  shows "hexToBuffer (bufferToHex b) = Inr b"
proof -
  have len: "length (bufferToHex b) div 2 = length b"
    by (simp add: length_bufferToHex)
  have "map (\<lambda>k. ToUint8 (parseInt16 (take 2 (drop (2 * k) (bufferToHex b))))) [0..<length b] = b"
    by (rule nth_equalityI) (simp_all add: chunk_bufferToHex ToUint8_parseInt16_byte_hex)
  then show ?thesis
    using hexToBuffer_closed [of "bufferToHex b"] assms by (simp add: len)
qed

subsection \<open>Bit strings\<close>

lemma parseInt16_single:
  "parseInt16 [c] = (case hex_digit_value c of None \<Rightarrow> NaN | Some d \<Rightarrow> Num (int d))"
proof (cases "is_white_space c")
  case True
  then have "hex_digit_value c = None"
    by (auto simp: is_white_space_def hex_digit_value_def word_le_nat_alt)
  with True show ?thesis by (simp add: parseInt16_def strip_sign_def strip_0x_def str_def)
next
  case False
  show ?thesis
  proof (cases "c = cu CHR ''+'' \<or> c = cu CHR ''-''")
    case True
    then have "hex_digit_value c = None"
      by (auto simp: cu_def hex_digit_value_def)
    with True False show ?thesis
      by (auto simp: parseInt16_def strip_sign_def strip_0x_def str_def)
  next
    case sign: False
    with False show ?thesis
      by (auto simp: parseInt16_def strip_sign_def strip_0x_def str_def split: option.splits)
  qed
qed

lemma nibble_bits:
  "d < 16 \<Longrightarrow> padStart 4 (cu CHR ''0'') (radix_digits 2 d) = bits_msb_first 4 d"
  by (erule nibble_all) code_simp

lemma hexToBits_Cons:
  "hexToBits (c # s) = padStart 4 (cu CHR ''0'') (Number_toString 2 (parseInt16 [c])) @ hexToBits s"
  by (simp add: hexToBits_def)

lemma hexToBits_Nil [simp]: "hexToBits [] = []"
  by (simp add: hexToBits_def)

lemma hexToBits_append: "hexToBits (s @ t) = hexToBits s @ hexToBits t"
  by (simp add: hexToBits_def)

lemma hexToBits_digit:
  "hex_digit_value c = Some d \<Longrightarrow> hexToBits [c] = bits_msb_first 4 d"
  using hex_digit_value_less [of c d] by (simp add: hexToBits_Cons parseInt16_single nibble_bits)

lemma length_bits_msb_first [simp]: "length (bits_msb_first w v) = w"
  by (simp add: bits_msb_first_def)

lemma upt8: "[0..<8] = [0, 1, 2, 3, 4, 5, 6, 7::nat]" "[0..<4] = [0, 1, 2, 3::nat]"
  by (simp_all add: upt_rec)

lemma byte_bits_split:
  "bits_msb_first 4 (n div 16) @ bits_msb_first 4 (n mod 16) = bits_msb_first 8 n"
proof -
  have hi: "bit (n div 16) k = bit n (k + 4)" for k
    using bit_drop_bit_eq [of 4 n] by (simp add: drop_bit_eq_div add.commute)
  have lo: "k < 4 \<Longrightarrow> bit (n mod 16) k = bit n k" for k
    using bit_take_bit_iff [of 4 n k] by (simp add: take_bit_eq_mod)
  show ?thesis
    by (simp add: bits_msb_first_def upt8 hi lo)
qed

lemma hexToBits_byte_hex: "hexToBits (byte_hex b) = bits_msb_first 8 (unat b)"
proof -
  have lt: "unat b < 256" using unsigned_less [of b, where ?'a = nat] by simp
  have "hexToBits (byte_hex b) =
      hexToBits [digit_unit (unat b div 16)] @ hexToBits [digit_unit (unat b mod 16)]"
    unfolding byte_hex_digits by (simp add: hexToBits_Cons)
  also have "\<dots> = bits_msb_first 4 (unat b div 16) @ bits_msb_first 4 (unat b mod 16)"
    by (simp add: hexToBits_digit hex_digit_value_digit_unit byte_nibbles)
  finally show ?thesis by (simp add: byte_bits_split)
qed

lemma hexToBits_bufferToHex:
  "hexToBits (bufferToHex bs) = concat (map (\<lambda>b. bits_msb_first 8 (unat b)) bs)"
  by (induction bs) (simp_all add: bufferToHex_def hexToBits_append hexToBits_byte_hex)

subsection \<open>Hamming distance\<close>

lemma hamming_loop_card:
  "hamming_loop a b i cnt =
     cnt + card {j. i \<le> j \<and> j < min (length a) (length b) \<and> a ! j \<noteq> b ! j}"
proof (induction a b i cnt rule: hamming_loop.induct)
  case (1 a b i cnt)
  let ?n = "min (length a) (length b)"
  let ?D = "\<lambda>i. {j. i \<le> j \<and> j < ?n \<and> a ! j \<noteq> b ! j}"
  show ?case
  proof (cases "i < ?n")
    case False
    then have "?D i = {}" by auto
    with False show ?thesis by (subst hamming_loop.simps) auto
  next
    case True
    have fin: "finite (?D (i + 1))" by simp
    have split: "?D i = (if a ! i \<noteq> b ! i then insert i (?D (i + 1)) else ?D (i + 1))"
      using True by (auto simp: Suc_le_eq intro: le_neq_implies_less dest: le_antisym)
    have notin: "i \<notin> ?D (i + 1)" by simp
    have "card (?D i) = (if a ! i \<noteq> b ! i then 1 else 0) + card (?D (i + 1))"
      unfolding split using fin notin by (simp del: One_nat_def)
    then show ?thesis
      using True "1.IH" [OF True] by (subst hamming_loop.simps) simp
  qed
qed

lemma hamming_card:
  "hamming a b = card {j. j < min (length a) (length b) \<and> a ! j \<noteq> b ! j}"
  by (simp add: hamming_def hamming_loop_card)

lemma hamming_le: "hamming a b \<le> min (length a) (length b)"
proof -
  have "{j. j < min (length a) (length b) \<and> a ! j \<noteq> b ! j} \<subseteq> {..<min (length a) (length b)}"
    by auto
  then have "hamming a b \<le> card {..<min (length a) (length b)}"
    unfolding hamming_card by (intro card_mono) simp_all
  then show ?thesis by simp
qed

lemma hamming_self [simp]: "hamming a a = 0"
  by (simp add: hamming_card)

subsection \<open>The digest has 32 bytes\<close>

lemma length_sha256_round: "length st = 8 \<Longrightarrow> length (sha256_round st kw) = 8"
  by (cases "(st, kw)" rule: sha256_round.cases) simp_all

lemma length_foldl_sha256_round:
  "length st = 8 \<Longrightarrow> length (foldl sha256_round st kws) = 8"
  by (induction kws arbitrary: st) (simp_all add: length_sha256_round)

lemma length_sha256_compress: "length H = 8 \<Longrightarrow> length (sha256_compress H block) = 8"
  by (simp add: sha256_compress_def length_foldl_sha256_round)

lemma length_foldl_sha256_compress:
  "length H = 8 \<Longrightarrow> length (foldl sha256_compress H blocks) = 8"
  by (induction blocks arbitrary: H) (simp_all add: length_sha256_compress)

lemma length_concat_word_be: "length (concat (map word_be ws)) = 4 * length ws"
  by (induction ws) (simp_all add: word_be_def)

lemma length_SHA256: "length (SHA256 msg) = 32"
  by (simp add: SHA256_def length_concat_word_be length_foldl_sha256_compress sha256_H0_def)

lemma sha256HexFromBytes_bufferToHex: "sha256HexFromBytes bs = bufferToHex (SHA256 bs)"
  by (simp add: sha256HexFromBytes_def bufferToHex_def byte_hex_def [abs_def] del: Number_toString.simps)

lemma length_sha256HexFromBytes: "length (sha256HexFromBytes bs) = 64"
  by (simp add: sha256HexFromBytes_bufferToHex length_bufferToHex length_SHA256)

lemma length_concat_bits8:
  "length (concat (map (\<lambda>b. bits_msb_first 8 (unat b)) (bs :: byte list))) = 8 * length bs"
  by (induction bs) simp_all

lemma length_digest_bits: "length (hexToBits (sha256HexFromBytes bs)) = 256"
  by (simp add: sha256HexFromBytes_bufferToHex hexToBits_bufferToHex length_concat_bits8
      length_SHA256)

subsection \<open>UTF-8 encoding\<close>

lemma utf8_scalar_nonempty: "utf8_scalar cp \<noteq> []"
  by (simp add: utf8_scalar_def)

lemma TextEncoder_encode_nonempty: "input \<noteq> [] \<Longrightarrow> TextEncoder_encode input \<noteq> []"
  by (cases input rule: TextEncoder_encode.cases) (simp_all add: utf8_scalar_nonempty)

lemma TextEncoder_encode_empty_iff: "TextEncoder_encode input = [] \<longleftrightarrow> input = []"
  using TextEncoder_encode_nonempty [of input] by auto

lemma space_not_surrogate:
  "\<not> is_low_surrogate (cu CHR '' '')" "\<not> is_high_surrogate (cu CHR '' '')"
  by (simp_all add: is_low_surrogate_def is_high_surrogate_def cu_def)

lemma TextEncoder_encode_space: "TextEncoder_encode [cu CHR '' ''] = [0x20]"
  by (simp add: space_not_surrogate) (simp add: cu_def utf8_scalar_def)

lemma TextEncoder_encode_append_space:
  "TextEncoder_encode (input @ str '' '') = TextEncoder_encode input @ [0x20]"
proof (induction input rule: TextEncoder_encode.induct)
  case 1
  show ?case using TextEncoder_encode_space by (simp add: str_def)
next
  case (2 c)
  show ?case using TextEncoder_encode_space by (simp add: str_def space_not_surrogate)
next
  case (3 c d cs)
  then show ?case by (simp add: str_def)
qed

lemma TextEncoder_encode_Z: "TextEncoder_encode (str ''Z'') = [0x5A]"
  by (simp add: str_def cu_def is_low_surrogate_def is_high_surrogate_def utf8_scalar_def)

lemma TextEncoder_encode_z: "TextEncoder_encode (str ''z'') = [0x7A]"
  by (simp add: str_def cu_def is_low_surrogate_def is_high_surrogate_def utf8_scalar_def)

subsection \<open>The mutation helpers\<close>

lemma length_typed_set_int [simp]: "length (typed_set_int arr k v) = length arr"
  by (simp add: typed_set_int_def)

lemma nth_typed_set_int_other:
  "int j \<noteq> k \<Longrightarrow> typed_set_int arr k v ! j = arr ! j"
  by (auto simp: typed_set_int_def)

lemma ToUint8_js_xor:
  "ToUint8 (Num (js_xor a b)) = (word_of_int a XOR word_of_int b :: byte)"
  by (rule bit_eqI) (auto simp: js_xor_def ToInt32_def bit_simps)

lemma js_rem_0 [simp]: "js_rem 0 n = 0"
  by (simp add: js_rem_def)

lemma js_rem_last: "0 < n \<Longrightarrow> js_rem (- 1 + n) n = n - 1"
proof (cases "n = 1")
  case True
  then show ?thesis by (simp add: js_rem_def)
next
  case False
  assume "0 < n"
  with False have n: "1 < n" by simp
  then have a: "\<bar>- 1 + n\<bar> = n - 1" and b: "\<bar>n\<bar> = n" and c: "sgn (- 1 + n) = 1"
    by simp_all
  have d: "(n - 1) mod n = n - 1"
    using n by (intro mod_pos_pos_trivial) simp_all
  show ?thesis unfolding js_rem_def a b c d by simp
qed

lemma js_rem_first: "0 < n \<Longrightarrow> js_rem (0 + n) n = 0"
  by (simp add: js_rem_def)

lemma bit_width_le: "n < 2 ^ k \<Longrightarrow> bit_width n \<le> k"
proof (induction k arbitrary: n)
  case 0
  then show ?case by (subst bit_width.simps) simp
next
  case (Suc k)
  show ?case
  proof (cases "n = 0")
    case True
    then show ?thesis by (subst bit_width.simps) simp
  next
    case False
    from Suc.prems have "n div 2 < 2 ^ k" by simp
    from Suc.IH [OF this] False show ?thesis by (subst bit_width.simps) simp
  qed
qed

lemma round_double_exact: "\<bar>n\<bar> < 2 ^ 53 \<Longrightarrow> round_double n = Some n"
proof -
  assume n: "\<bar>n\<bar> < 2 ^ 53"
  then have small: "nat \<bar>n\<bar> < 2 ^ 53" by simp
  from bit_width_le [OF this] have u: "bit_width (nat \<bar>n\<bar>) - 53 = 0" by simp
  have "(2::nat) ^ 53 < 2 ^ 1024" by simp
  with small have lt: "nat \<bar>n\<bar> < 2 ^ 1024" by (rule less_trans)
  have "sgn n * \<bar>n\<bar> = n" by (simp add: mult_sgn_abs)
  with lt show ?thesis
    unfolding round_double_def u Let_def by simp
qed

lemma js_add_length_0: "js_add_length 0 n = Some (int n)"
  by (simp add: js_add_length_def round_double_exact)

lemma js_add_length_minus_1: "0 < n \<Longrightarrow> js_add_length (- 1) n = Some (int n - 1)"
proof (cases "n < 2 ^ 53")
  case True
  assume "0 < n"
  with True have "\<bar>- 1 + int n\<bar> < 2 ^ 53" by simp
  from round_double_exact [OF this] True show ?thesis
    by (simp add: js_add_length_def)
next
  case False
  then show ?thesis by (simp add: js_add_length_def)
qed

lemma length_typed_set_number [simp]: "length (typed_set_number arr k v) = length arr"
  by (cases k) (simp_all add: typed_set_number_def)

lemma nth_typed_set_number_other:
  "Num (int j) \<noteq> k \<Longrightarrow> typed_set_number arr k v ! j = arr ! j"
  by (cases k) (auto simp: typed_set_number_def typed_set_int_def)

lemma length_mutateByteFlip:
  "length (mutateByteFlip input byteIndex bitMask) = length (TextEncoder_encode input)"
  by (simp add: mutateByteFlip_def Let_def)

lemma length_mutateCharChange:
  "length (mutateCharChange input index newChar) = length (TextEncoder_encode input)"
  by (simp add: mutateCharChange_def Let_def)

lemma nth_mutateByteFlip_other:
  "int j \<noteq> js_rem byteIndex (int (length (TextEncoder_encode input))) \<Longrightarrow>
   mutateByteFlip input byteIndex bitMask ! j = TextEncoder_encode input ! j"
  by (simp add: mutateByteFlip_def Let_def nth_typed_set_int_other)

lemma nth_mutateCharChange_other:
  "Num (int j) \<noteq> js_rem_number (js_add_length index (length (TextEncoder_encode input)))
                    (int (length (TextEncoder_encode input))) \<Longrightarrow>
   mutateCharChange input index newChar ! j = TextEncoder_encode input ! j"
  by (simp add: mutateCharChange_def Let_def nth_typed_set_number_other)

lemma mutateByteFlip_first:
  "mutateByteFlip input 0 bitMask =
     (if TextEncoder_encode input = [] then []
      else (TextEncoder_encode input)
             [0 := TextEncoder_encode input ! 0 XOR word_of_int bitMask])"
  by (simp add: mutateByteFlip_def Let_def typed_set_int_def typed_get_int32_def
      ToUint8_js_xor del: ToUint8.simps)

lemma mutateCharChange_first:
  "mutateCharChange input 0 (str ''Z'') =
     (if TextEncoder_encode input = [] then [] else (TextEncoder_encode input)[0 := 0x5A])"
  by (simp add: mutateCharChange_def Let_def typed_set_number_def typed_set_int_def
      TextEncoder_encode_Z first_byte_def js_add_length_0 js_rem_number_def js_rem_def)

lemma mutateCharChange_last:
  "mutateCharChange input (- 1) (str ''z'') =
     (if TextEncoder_encode input = [] then []
      else (TextEncoder_encode input)[length (TextEncoder_encode input) - 1 := 0x7A])"
proof (cases "TextEncoder_encode input = []")
  case True
  then show ?thesis by (simp add: mutateCharChange_def)
next
  case False
  then have pos: "0 < int (length (TextEncoder_encode input))"
    and pos': "0 < length (TextEncoder_encode input)" by simp_all
  have "nat (int (length (TextEncoder_encode input)) - 1) = length (TextEncoder_encode input) - 1"
    by simp
  with False show ?thesis
    using js_rem_last [OF pos] js_add_length_minus_1 [OF pos']
    by (simp add: mutateCharChange_def Let_def typed_set_number_def typed_set_int_def
        TextEncoder_encode_z first_byte_def js_rem_number_def)
qed

text \<open>
  Beyond \<open>2^53\<close> the sum is rounded: \<open>2^53 + 3\<close> becomes \<open>2^53 + 4\<close>, a multiple of 3,
  so index \<open>2^53\<close> on three bytes writes byte 0.
\<close>

lemma bit_width_numeral:
  "bit_width (numeral k) = Suc (bit_width (numeral k div 2))"
  by (subst bit_width.simps) simp

lemma bit_width_0 [simp]: "bit_width 0 = 0"
  by (subst bit_width.simps) simp

lemma bit_width_1 [simp]: "bit_width (Suc 0) = Suc 0"
  by (simp add: bit_width.simps [of "Suc 0"])

lemma mutateCharChange_rounded_index:
  "mutateCharChange (str ''abc'') (2 ^ 53) (str ''z'') = [0x7A, 0x62, 0x63]"
proof -
  have enc: "TextEncoder_encode (str ''abc'') = [0x61, 0x62, 0x63]"
    by (simp add: str_def cu_def is_low_surrogate_def is_high_surrogate_def utf8_scalar_def)
  have w: "bit_width (nat \<bar>2 ^ 53 + 3\<bar>) = 54"
    by (simp add: bit_width_numeral)
  have "round_double (2 ^ 53 + 3) = Some (2 ^ 53 + 4)"
    unfolding round_double_def w Let_def by simp
  then have "js_rem_number (js_add_length (2 ^ 53) 3) 3 = Num 0"
    by (simp add: js_add_length_def js_rem_number_def js_rem_def)
  moreover have len: "length [0x61, 0x62, 0x63 :: byte] = 3" by simp
  ultimately show ?thesis
    unfolding mutateCharChange_def enc Let_def len
    by (simp add: typed_set_number_def typed_set_int_def TextEncoder_encode_z first_byte_def)
qed

subsection \<open>The helpers on the store\<close>

lemma mutateByteFlip_heap_eq:
  "mutateByteFlip_heap input byteIndex bitMask h =
     (if TextEncoder_encode input = [] then (length h, h @ [[]])
      else (length h + 1,
            h @ [TextEncoder_encode input, mutateByteFlip input byteIndex bitMask]))"
  by (simp add: mutateByteFlip_heap_def mutateByteFlip_def alloc_def heap_set_def Let_def
      nth_append list_update_append del: ToUint8.simps)

lemma mutateCharChange_heap_eq:
  "mutateCharChange_heap input index newChar h =
     (if TextEncoder_encode input = [] then (length h, h @ [[]])
      else (length h + 1,
            h @ [TextEncoder_encode input, mutateCharChange input index newChar,
                 TextEncoder_encode newChar]))"
  by (simp add: mutateCharChange_heap_def mutateCharChange_def alloc_def heap_set_number_def
      Let_def nth_append list_update_append)

subsection \<open>Printing numbers\<close>

lemma radix_digits_nonempty: "radix_digits r n \<noteq> []"
  by (subst radix_digits.simps) simp

lemma radix_digits_10_split:
  "radix_digits 10 n =
     (if n < 10 then [digit_unit n] else radix_digits 10 (n div 10) @ [digit_unit (n mod 10)])"
  by (subst radix_digits.simps) simp

lemma digit_unit_0: "digit_unit 0 = cu CHR ''0''"
  by (simp add: digit_unit_def cu_def)

lemma toFixed_1_aux:
  assumes "0 \<le> x" and n: "nat \<lfloor>x * 10 + 1 / 2\<rfloor> = n"
  shows "toFixed 1 x = radix_digits 10 (n div 10) @ str ''.'' @ [digit_unit (n mod 10)]"
proof -
  have unfold: "toFixed 1 x =
      (if length (radix_digits 10 n) \<le> 1
       then take (length (replicate (2 - length (radix_digits 10 n)) (cu CHR ''0'')
                            @ radix_digits 10 n) - 1)
              (replicate (2 - length (radix_digits 10 n)) (cu CHR ''0'') @ radix_digits 10 n)
            @ str ''.''
            @ drop (length (replicate (2 - length (radix_digits 10 n)) (cu CHR ''0'')
                              @ radix_digits 10 n) - 1)
                (replicate (2 - length (radix_digits 10 n)) (cu CHR ''0'') @ radix_digits 10 n)
       else take (length (radix_digits 10 n) - 1) (radix_digits 10 n) @ str ''.''
            @ drop (length (radix_digits 10 n) - 1) (radix_digits 10 n))"
    using assms(1) by (simp add: toFixed_def n abs_of_nonneg not_less Let_def)
  show ?thesis
  proof (cases "n < 10")
    case True
    then have m: "radix_digits 10 n = [digit_unit n]" "radix_digits 10 (n div 10) = [cu CHR ''0'']"
      by (simp_all add: radix_digits_10_split [of n] radix_digits_10_split [of 0] digit_unit_0)
    show ?thesis
      using True unfolding unfold m by (simp add: numeral_2_eq_2)
  next
    case False
    then have m: "radix_digits 10 n = radix_digits 10 (n div 10) @ [digit_unit (n mod 10)]"
      by (simp add: radix_digits_10_split [of n])
    have ne: "radix_digits 10 (n div 10) \<noteq> []" by (rule radix_digits_nonempty)
    then have "1 \<le> length (radix_digits 10 (n div 10))" by (simp add: Suc_le_eq)
    then show ?thesis
      unfolding unfold m using ne by simp
  qed
qed

lemma pct_floor: "nat \<lfloor>(of_nat d / 256 * 100 :: rat) * 10 + 1 / 2\<rfloor> = (d * 1000 + 128) div 256"
proof -
  have "(of_nat d / 256 * 100 :: rat) * 10 + 1 / 2 = of_nat (d * 1000 + 128) / of_nat 256"
    by (simp add: field_simps)
  then have "\<lfloor>(of_nat d / 256 * 100 :: rat) * 10 + 1 / 2\<rfloor>
      = \<lfloor>(of_nat (d * 1000 + 128) :: rat) / of_nat 256\<rfloor>"
    by (simp only:)
  also have "\<dots> = int ((d * 1000 + 128) div 256)"
    by (rule floor_divide_of_nat_eq)
  finally show ?thesis by simp
qed

lemma pct_digits:
  "pct d = radix_digits 10 ((d * 1000 + 128) div 256 div 10) @ str ''.''
             @ [digit_unit ((d * 1000 + 128) div 256 mod 10)]"
proof -
  have "0 \<le> (of_nat d / 256 * 100 :: rat)" by simp
  from toFixed_1_aux [OF this pct_floor] show ?thesis
    unfolding pct_def .
qed

subsection \<open>The six results\<close>

lemma run_eq:
  "run input =
     [compute \<lparr>name = str ''original'', bytes = TextEncoder_encode input\<rparr>,
      compute \<lparr>name = str ''append space'', bytes = TextEncoder_encode (input @ str '' '')\<rparr>,
      compute \<lparr>name = str ''change first char'', bytes = mutateCharChange input 0 (str ''Z'')\<rparr>,
      compute \<lparr>name = str ''flip one bit in first byte'', bytes = mutateByteFlip input 0 1\<rparr>,
      compute \<lparr>name = str ''flip 0x80 bit in first byte'', bytes = mutateByteFlip input 0 0x80\<rparr>,
      compute \<lparr>name = str ''change last char'', bytes = mutateCharChange input (- 1) (str ''z'')\<rparr>]"
  by (simp add: run_def variants_def)

lemma length_run: "length (run input) = 6"
  by (simp add: run_def variants_def)

lemma compute_fields [simp]:
  "name (compute v) = name v" "bytes (compute v) = bytes v"
  "hex (compute v) = sha256HexFromBytes (bytes v)"
  "bits (compute v) = hexToBits (sha256HexFromBytes (bytes v))"
  by (simp_all add: compute_def)

lemma run_bits: "r \<in> set (run input) \<Longrightarrow> bits r = hexToBits (sha256HexFromBytes (bytes r))"
  by (auto simp: run_def)

lemma run_hex: "r \<in> set (run input) \<Longrightarrow> hex r = sha256HexFromBytes (bytes r)"
  by (auto simp: run_def)

lemma length_run_bits: "r \<in> set (run input) \<Longrightarrow> length (bits r) = 256"
  by (simp add: run_bits length_digest_bits)

lemma baseBits_run:
  "baseBits (run input) = hexToBits (sha256HexFromBytes (TextEncoder_encode input))"
  by (simp add: baseBits_def run_eq)

lemma length_baseBits_run: "length (baseBits (run input)) = 256"
  by (simp add: baseBits_run length_digest_bits)

lemma dist_run:
  "r \<in> set (run input) \<Longrightarrow> dist (baseBits (run input)) r = hamming (baseBits (run input)) (bits r)"
  using length_baseBits_run [of input] by (auto simp: dist_def)

lemma dist_run_le: "r \<in> set (run input) \<Longrightarrow> dist (baseBits (run input)) r \<le> 256"
  using hamming_le [of "baseBits (run input)" "bits r"]
  by (simp add: dist_run length_baseBits_run length_run_bits)

lemma enumerate6:
  "enumerate 0 [a, b, c, d, e, f] = [(0, a), (1, b), (2, c), (3, d), (4, e), (5, f)]"
  by (simp add: enumerate_eq_zip upt_rec)

subsection \<open>The signature wrappers\<close>

text \<open>
  \<open>signMessage\<close> and \<open>verifySignature\<close> hand the provider the same encoding of the
  message and the same parameters, the signature and the data in the provider's order.
\<close>

lemma verifySignature_signMessage:
  "verifySignature P m (signMessage P r m sk) pk =
     subtle_verify P \<lparr>alg_name = ''ECDSA'', alg_param = ''SHA-256''\<rparr> pk
       (subtle_sign P r \<lparr>alg_name = ''ECDSA'', alg_param = ''SHA-256''\<rparr> sk (TextEncoder_encode m))
       (TextEncoder_encode m)"
  by (simp add: verifySignature_def signMessage_def)

lemma generateKeyPair_keys:
  "privateKey (generateKeyPair P r) =
     privateKey (subtle_generateKey P r \<lparr>alg_name = ''ECDSA'', alg_param = ''P-256''\<rparr>) \<and>
   publicKey (generateKeyPair P r) =
     publicKey (subtle_generateKey P r \<lparr>alg_name = ''ECDSA'', alg_param = ''P-256''\<rparr>)"
  by (simp add: generateKeyPair_def Let_def)

subsection \<open>Evaluating the digest\<close>

lemma replicate_numeral: "replicate (numeral k) x = x # replicate (pred_numeral k) x"
  by (simp add: numeral_eq_Suc)

lemma extend_schedule_numeral:
  "extend_schedule (numeral k) W =
     extend_schedule (pred_numeral k)
       (W @ [ssig1 (W ! (length W - 2)) + W ! (length W - 7) + ssig0 (W ! (length W - 15))
               + W ! (length W - 16)])"
  by (simp add: numeral_eq_Suc)

lemma rotr_eval: "n \<le> 32 \<Longrightarrow> rotr n x = drop_bit n x OR push_bit (32 - n) (take_bit n x)"
  unfolding rotr_def
  by (rule bit_eqI) (auto simp: bit_simps)

lemmas sha256_eval =
  SHA256_def sha256_pad_def length_be64_def replicate_numeral blocks64.simps
  sha256_compress_def sha256_K_def sha256_H0_def extend_schedule_numeral
  ssig0_def ssig1_def bsig0_def bsig1_def Ch_def Maj_def rotr_eval word_be_def

lemmas hex_eval =
  sha256HexFromBytes_bufferToHex bufferToHex_def byte_hex_digits digit_unit_def str_def cu_def

text \<open>The standard test vector, as the demo computes it: the digest of \<open>abc\<close>.\<close>

lemma sha256Hex_abc:
  "sha256Hex (str ''abc'') =
     str ''ba7816bf8f01cfea414140de5dae2223b00361a396177a9cb410ff61f20015ad''"
proof -
  have "TextEncoder_encode (str ''abc'') = [0x61, 0x62, 0x63]"
    by (simp add: str_def cu_def is_low_surrogate_def is_high_surrogate_def utf8_scalar_def)
  then show ?thesis
    unfolding sha256Hex_def by (simp add: sha256_eval hex_eval)
qed

lemma sha256Hex_empty:
  "sha256HexFromBytes [] =
     str ''e3b0c44298fc1c149afbf4c8996fb92427ae41e4649b934ca495991b7852b855''"
  by (simp add: sha256_eval hex_eval)

lemma sha256Hex_space:
  "sha256HexFromBytes [0x20] =
     str ''36a9e7f1c95b82ffb99743e0c5c4ce95d83c9a430aac59f84ef3cbfab6145068''"
  by (simp add: sha256_eval hex_eval)

lemma hamming_loop_zip:
  "hamming_loop a b i cnt =
     cnt + length (filter (\<lambda>(x, y). x \<noteq> y) (zip (drop i a) (drop i b)))"
proof (induction a b i cnt rule: hamming_loop.induct)
  case (1 a b i cnt)
  show ?case
  proof (cases "i < min (length a) (length b)")
    case False
    then have "zip (drop i a) (drop i b) = []" by auto
    with False show ?thesis by (subst hamming_loop.simps) auto
  next
    case True
    then have "drop i a = a ! i # drop (i + 1) a" "drop i b = b ! i # drop (i + 1) b"
      by (simp_all add: Cons_nth_drop_Suc)
    then show ?thesis
      using True "1.IH" [OF True] by (subst hamming_loop.simps) simp
  qed
qed

lemma hamming_zip: "hamming a b = length (filter (\<lambda>(x, y). x \<noteq> y) (zip a b))"
  by (simp add: hamming_def hamming_loop_zip)

lemma hexToBits_unit:
  "hexToBits (c # s) =
     (case hex_digit_value c of
        None \<Rightarrow> padStart 4 (cu CHR ''0'') (str ''NaN'')
      | Some d \<Rightarrow> bits_msb_first 4 d) @ hexToBits s"
  using hex_digit_value_less [of c]
  by (simp add: hexToBits_Cons parseInt16_single nibble_bits split: option.split)

lemma hamming_empty_space:
  "hamming (hexToBits (sha256HexFromBytes [])) (hexToBits (sha256HexFromBytes [0x20])) = 142"
  unfolding sha256Hex_empty sha256Hex_space
  by (simp add: hamming_zip hexToBits_unit hex_digit_value_def bits_msb_first_def upt8
      str_def cu_def bit_Suc_0_iff)

lemma render_142:
  "Number_toString 10 (Num 142) @ str ''/256 bits changed ('' @ pct 142 @ str ''%)''
     = str ''142/256 bits changed (55.5%)''"
  by code_simp

lemma render_0:
  "Number_toString 10 (Num 0) @ str ''/256 bits changed ('' @ pct 0 @ str ''%)''
     = str ''0/256 bits changed (0.0%)''"
  by code_simp

subsection \<open>The empty input\<close>

lemma encode_empty:
  "TextEncoder_encode (str '''') = []" "TextEncoder_encode (str '''' @ str '' '') = [0x20]"
  "mutateCharChange (str '''') i c = []" "mutateByteFlip (str '''') k m = []"
  using TextEncoder_encode_append_space [of "[]"]
  by (simp_all add: str_def mutateCharChange_def mutateByteFlip_def)

lemma variants_empty:
  "map bytes (variants (str '''')) = [[], [0x20], [], [], [], []]"
  by (simp add: variants_def encode_empty)

lemma table_rows_empty:
  "map cell_changed (table_rows (run (str ''''))) =
     [str ''-'', str ''142/256 bits changed (55.5%)'', str ''0/256 bits changed (0.0%)'',
      str ''0/256 bits changed (0.0%)'', str ''0/256 bits changed (0.0%)'',
      str ''0/256 bits changed (0.0%)'']"
proof -
  have base: "baseBits (run (str '''')) = hexToBits (sha256HexFromBytes [])"
    by (simp add: baseBits_run encode_empty)
  have ne: "hexToBits (sha256HexFromBytes []) \<noteq> []"
    using length_digest_bits [of "[]"] by auto
  have d0: "dist (hexToBits (sha256HexFromBytes [])) (compute \<lparr>name = n, bytes = []\<rparr>) = 0" for n
    by (simp add: dist_def)
  have d1: "dist (hexToBits (sha256HexFromBytes [])) (compute \<lparr>name = n, bytes = [0x20]\<rparr>) = 142"
    for n
    using ne by (simp add: dist_def hamming_empty_space)
  show ?thesis
    unfolding table_rows_def base
    unfolding run_eq encode_empty enumerate6
    by (simp add: table_row_of_def d0 d1 render_0 render_142 del: Number_toString.simps)
qed

section \<open>The claims\<close>

text \<open>
  C1 (as amended): for the empty input the original and the four mutation variants are the
  empty byte sequence, while \<open>append space\<close> is the single byte \<open>0x20\<close>; the table of
  \<open>run("")\<close> shows no value for the original, 0 bits changed for the four mutation rows
  and 142 bits changed for \<open>append space\<close>.
\<close>

theorem empty_input_variants_and_distances:
  "map bytes (variants (str '''')) = [[], [0x20], [], [], [], []] \<and>
   map bytes (run (str '''')) = [[], [0x20], [], [], [], []] \<and>
   map cell_changed (table_rows (run (str ''''))) =
     [str ''-'', str ''142/256 bits changed (55.5%)'', str ''0/256 bits changed (0.0%)'',
      str ''0/256 bits changed (0.0%)'', str ''0/256 bits changed (0.0%)'',
      str ''0/256 bits changed (0.0%)'']"
proof -
  have "map bytes (run (str '''')) = map bytes (variants (str ''''))"
    by (simp add: run_def comp_def)
  then show ?thesis
    using variants_empty table_rows_empty by simp
qed

text \<open>
  At the empty input not all six variants are empty and not all five distances are 0:
  appending a space gives one byte, whose digest differs from the digest of no bytes.
\<close>

theorem empty_input_append_space_counterexample:
  "bytes (variants (str '''') ! 1) = [0x20] \<and>
   cell_changed (table_rows (run (str '''')) ! 1) = str ''142/256 bits changed (55.5%)''"
proof -
  have "bytes (variants (str '''') ! 1) = map bytes (variants (str '''')) ! 1"
    by (simp add: variants_def)
  moreover have "cell_changed (table_rows (run (str '''')) ! 1)
      = map cell_changed (table_rows (run (str ''''))) ! 1"
    by (simp add: table_rows_def run_def variants_def)
  ultimately show ?thesis
    unfolding variants_empty table_rows_empty by simp
qed

text \<open>
  C2: decoding the hex encoding of a byte sequence returns the byte sequence. (A typed
  array has fewer than \<open>2^53\<close> elements.)
\<close>

theorem hex_round_trip:
  "length b < 2 ^ 53 \<Longrightarrow> hexToBuffer (bufferToHex b) = Inr b"
  by (rule hexToBuffer_bufferToHex)

theorem hex_round_trip_witness:
  "length [0x00, 0x0A, 0xAB, 0xFF :: byte] < 2 ^ 53 \<and>
   bufferToHex [0x00, 0x0A, 0xAB, 0xFF] = str ''000aabff'' \<and>
   hexToBuffer (str ''000aabff'') = Inr [0x00, 0x0A, 0xAB, 0xFF]"
proof -
  have len: "length [0x00, 0x0A, 0xAB, 0xFF :: byte] < 2 ^ 53" by simp
  have enc: "bufferToHex [0x00, 0x0A, 0xAB, 0xFF] = str ''000aabff''" by code_simp
  from hex_round_trip [OF len] len enc show ?thesis by simp
qed

text \<open>
  C3 (as amended): \<open>hexToBuffer\<close> never fails. For every string it returns one byte for
  each complete group of two code units: the value \<open>parseInt\<close> reads from the group,
  stored as an unsigned byte, 0 when the group does not start with a hex number. A
  trailing odd code unit is ignored.
\<close>

theorem hexToBuffer_total:
  "length s < 2 ^ 53 \<Longrightarrow>
   hexToBuffer s =
     Inr (map (\<lambda>k. ToUint8 (parseInt16 (take 2 (drop (2 * k) s)))) [0..<length s div 2])"
proof -
  assume "length s < 2 ^ 53"
  then have "length s div 2 < 2 ^ 53" by simp
  then show ?thesis by (rule hexToBuffer_closed)
qed

theorem hexToBuffer_total_witness:
  "length (str ''1f-1zz7'') < 2 ^ 53 \<and> hexToBuffer (str ''1f-1zz7'') = Inr [0x1F, 0xFF, 0x00]"
proof -
  have len: "length (str ''1f-1zz7'') < 2 ^ 53" by (simp add: str_def)
  have "map (\<lambda>k. ToUint8 (parseInt16 (take 2 (drop (2 * k) (str ''1f-1zz7'')))))
          [0..<length (str ''1f-1zz7'') div 2] = [0x1F, 0xFF, 0x00]"
    by code_simp
  with hexToBuffer_total [OF len] len show ?thesis by simp
qed

text \<open>
  Neither an odd length nor a character that is no hex digit makes \<open>hexToBuffer\<close>
  fail: both inputs below are decoded to bytes.
\<close>

theorem hexToBuffer_no_error_counterexample:
  "hexToBuffer (str ''abc'') = Inr [0xAB] \<and> hexToBuffer (str ''zz'') = Inr [0x00]"
  by code_simp

lemma digit_unit_lower_nth: "d < 16 \<Longrightarrow> digit_unit d = str ''0123456789abcdef'' ! d"
  by (erule nibble_all) (simp add: cu_def str_def digit_unit_def)

lemma set_byte_hex: "set (byte_hex b) \<subseteq> set (str ''0123456789abcdef'')"
  unfolding byte_hex_digits
  using digit_unit_lower_hex [OF byte_nibbles(1) [of b]] digit_unit_lower_hex [OF byte_nibbles(2) [of b]]
  by simp

lemma set_bufferToHex: "set (bufferToHex bs) \<subseteq> set (str ''0123456789abcdef'')"
  using set_byte_hex by (auto simp: bufferToHex_def)

lemma bufferToHex_nibbles:
  "bufferToHex bs =
     concat (map (\<lambda>x. [str ''0123456789abcdef'' ! (unat x div 16),
                        str ''0123456789abcdef'' ! (unat x mod 16)]) bs)"
  by (induction bs)
     (simp_all add: bufferToHex_def byte_hex_digits digit_unit_lower_nth byte_nibbles)

text \<open>
  C5: \<open>run\<close> returns six results, named and ordered as listed, whose bytes are the UTF-8
  encoding of the input: unmodified, with a space appended, with byte 0 replaced by
  \<open>Z\<close>, with byte 0 XOR \<open>0x01\<close>, with byte 0 XOR \<open>0x80\<close>, and with the last byte
  replaced by \<open>z\<close> (each mutation leaves an empty encoding empty). Every result carries
  the digest of its bytes in hex and in bits.
\<close>

theorem run_six_variants:
  "length (run input) = 6 \<and>
   map name (run input) =
     [str ''original'', str ''append space'', str ''change first char'',
      str ''flip one bit in first byte'', str ''flip 0x80 bit in first byte'',
      str ''change last char''] \<and>
   map bytes (run input) =
     [TextEncoder_encode input,
      TextEncoder_encode input @ [0x20],
      if TextEncoder_encode input = [] then [] else (TextEncoder_encode input)[0 := 0x5A],
      if TextEncoder_encode input = [] then []
      else (TextEncoder_encode input)[0 := TextEncoder_encode input ! 0 XOR 0x01],
      if TextEncoder_encode input = [] then []
      else (TextEncoder_encode input)[0 := TextEncoder_encode input ! 0 XOR 0x80],
      if TextEncoder_encode input = [] then []
      else (TextEncoder_encode input)[length (TextEncoder_encode input) - 1 := 0x7A]] \<and>
   map hex (run input) = map (\<lambda>r. bufferToHex (SHA256 (bytes r))) (run input) \<and>
   map bits (run input) = map (\<lambda>r. hexToBits (hex r)) (run input)"
proof -
  have flip1: "mutateByteFlip input 0 1 =
      (if TextEncoder_encode input = [] then []
       else (TextEncoder_encode input)[0 := TextEncoder_encode input ! 0 XOR 0x01])"
    using mutateByteFlip_first [of input 1] by simp
  have flip80: "mutateByteFlip input 0 0x80 =
      (if TextEncoder_encode input = [] then []
       else (TextEncoder_encode input)[0 := TextEncoder_encode input ! 0 XOR 0x80])"
    using mutateByteFlip_first [of input "0x80"] by simp
  show ?thesis
    unfolding run_eq
    by (simp add: flip1 flip80 mutateCharChange_first mutateCharChange_last
        TextEncoder_encode_append_space sha256HexFromBytes_bufferToHex)
qed

text \<open>
  C6: \<open>hamming\<close> counts the positions, below the shorter of the two lengths, at which
  its arguments differ; every distance that the table of \<open>run\<close> reports is the \<open>hamming\<close>
  distance between two strings of 256 bits and is at most 256.
\<close>

theorem hamming_counts_differences:
  "hamming a b = card {i. i < min (length a) (length b) \<and> a ! i \<noteq> b ! i} \<and>
   hamming a b \<le> min (length a) (length b) \<and>
   (\<forall>r \<in> set (run input).
      length (baseBits (run input)) = 256 \<and> length (bits r) = 256 \<and>
      dist (baseBits (run input)) r = hamming (baseBits (run input)) (bits r) \<and>
      dist (baseBits (run input)) r \<le> 256)"
proof (intro conjI ballI)
  show "hamming a b = card {i. i < min (length a) (length b) \<and> a ! i \<noteq> b ! i}"
    by (rule hamming_card)
  show "hamming a b \<le> min (length a) (length b)"
    by (rule hamming_le)
  fix r
  assume r: "r \<in> set (run input)"
  show "length (baseBits (run input)) = 256"
    by (rule length_baseBits_run)
  show "length (bits r) = 256"
    using r by (rule length_run_bits)
  show "dist (baseBits (run input)) r = hamming (baseBits (run input)) (bits r)"
    using r by (rule dist_run)
  show "dist (baseBits (run input)) r \<le> 256"
    using r by (rule dist_run_le)
qed

theorem hamming_counts_differences_witness:
  "hamming (str ''0110'') (str ''00111'') = 2 \<and>
   card {i. i < min (length (str ''0110'')) (length (str ''00111'')) \<and>
            str ''0110'' ! i \<noteq> str ''00111'' ! i} = 2 \<and>
   dist (baseBits (run (str ''abc''))) (run (str ''abc'') ! 5) \<le> 256"
proof -
  have mem: "run (str ''abc'') ! 5 \<in> set (run (str ''abc''))"
    by (rule nth_mem) (simp add: length_run)
  have h: "hamming (str ''0110'') (str ''00111'') = 2"
    by code_simp
  from hamming_counts_differences [of "str ''0110''" "str ''00111''" "str ''abc''"] mem h
  show ?thesis by auto
qed

text \<open>
  C7: on a string of hex digits \<open>hexToBits\<close> writes, in the order of the input, the four
  binary digits of each digit's value, most significant first; so the bits of an encoded
  byte sequence are the eight bits of each byte, most significant first, and a digest
  gives 256 bits.
\<close>

theorem hexToBits_nibbles:
  "(\<forall>c \<in> set h. hex_digit_value c \<noteq> None) \<Longrightarrow>
   hexToBits h = concat (map (\<lambda>c. bits_msb_first 4 (the (hex_digit_value c))) h) \<and>
   length (hexToBits h) = 4 * length h \<and>
   hexToBits (bufferToHex bs) = concat (map (\<lambda>b. bits_msb_first 8 (unat b)) bs) \<and>
   length (hexToBits (sha256HexFromBytes bs)) = 256"
proof -
  assume "\<forall>c \<in> set h. hex_digit_value c \<noteq> None"
  then have eq: "hexToBits h = concat (map (\<lambda>c. bits_msb_first 4 (the (hex_digit_value c))) h)"
  proof (induction h)
    case Nil
    show ?case by simp
  next
    case (Cons c h)
    then obtain d where d: "hex_digit_value c = Some d" by auto
    have "hexToBits (c # h) = hexToBits [c] @ hexToBits h"
      using hexToBits_append [of "[c]" h] by simp
    with Cons d show ?case by (simp add: hexToBits_digit)
  qed
  have "length (concat (map (\<lambda>c. bits_msb_first 4 (the (hex_digit_value c))) h)) = 4 * length h"
    by (induction h) simp_all
  with eq show ?thesis
    by (simp add: hexToBits_bufferToHex length_digest_bits)
qed

theorem hexToBits_nibbles_witness:
  "hexToBits (str ''0aF3'') = str ''0000101011110011'' \<and>
   hexToBits (bufferToHex [0xA5]) = str ''10100101''"
proof -
  have hyp: "\<forall>c \<in> set (str ''0aF3''). hex_digit_value c \<noteq> None"
    by (simp add: str_def cu_def hex_digit_value_def)
  have v: "concat (map (\<lambda>c. bits_msb_first 4 (the (hex_digit_value c))) (str ''0aF3''))
      = str ''0000101011110011''"
    "concat (map (\<lambda>b. bits_msb_first 8 (unat b)) [0xA5 :: byte]) = str ''10100101''"
    by code_simp+
  from hexToBits_nibbles [OF hyp, of "[0xA5]"] v show ?thesis by simp
qed

text \<open>
  C8: the hex encoding writes each byte as two lowercase hex digits, the high half
  first, with nothing between the bytes: its length is twice the byte count, and the
  digest's hex string, made the same way from 32 bytes, has 64 characters.
\<close>

theorem hex_lowercase_fixed_width:
  "bufferToHex b =
     concat (map (\<lambda>x. [str ''0123456789abcdef'' ! (unat x div 16),
                        str ''0123456789abcdef'' ! (unat x mod 16)]) b) \<and>
   length (bufferToHex b) = 2 * length b \<and>
   set (bufferToHex b) \<subseteq> set (str ''0123456789abcdef'') \<and>
   sha256HexFromBytes b = bufferToHex (SHA256 b) \<and>
   length (SHA256 b) = 32 \<and>
   length (sha256HexFromBytes b) = 64"
proof (intro conjI)
  show "bufferToHex b =
     concat (map (\<lambda>x. [str ''0123456789abcdef'' ! (unat x div 16),
                        str ''0123456789abcdef'' ! (unat x mod 16)]) b)"
    by (rule bufferToHex_nibbles)
  show "length (bufferToHex b) = 2 * length b"
    by (rule length_bufferToHex)
  show "set (bufferToHex b) \<subseteq> set (str ''0123456789abcdef'')"
    by (rule set_bufferToHex)
  show "sha256HexFromBytes b = bufferToHex (SHA256 b)"
    by (rule sha256HexFromBytes_bufferToHex)
  show "length (SHA256 b) = 32"
    by (rule length_SHA256)
  show "length (sha256HexFromBytes b) = 64"
    by (rule length_sha256HexFromBytes)
qed

lemma table_rows_nth:
  "i < length results \<Longrightarrow>
   table_rows results ! i = table_row_of (baseBits results) (i, results ! i)"
  by (simp add: table_rows_def nth_enumerate_eq)

lemma length_table_rows [simp]: "length (table_rows results) = length results"
  by (simp add: table_rows_def)

lemma baseBits_run_nth: "baseBits (run input) = bits (run input ! 0)"
  by (simp add: baseBits_def length_run)

lemma tenths_nearest:
  "\<bar>rat_of_nat ((d * 1000 + 128) div 256) / 10 - rat_of_nat d / 256 * 100\<bar> \<le> 1 / 20"
proof -
  define t where "t = (d * 1000 + 128) div 256"
  define m where "m = (d * 1000 + 128) mod 256"
  have "d * 1000 + 128 = 256 * t + m" and m: "m < 256"
    by (simp_all add: t_def m_def)
  then have "rat_of_nat (d * 1000 + 128) = rat_of_nat (256 * t + m)"
    by simp
  then have eq: "rat_of_nat d * 1000 + 128 = 256 * rat_of_nat t + rat_of_nat m"
    by simp
  have "rat_of_nat t / 10 - rat_of_nat d / 256 * 100 = (128 - rat_of_nat m) / 2560"
    using eq by (simp add: field_simps)
  moreover have "\<bar>128 - rat_of_nat m\<bar> \<le> 128"
    using m by (simp add: abs_le_iff)
  ultimately show ?thesis
    unfolding t_def [symmetric] by (simp add: abs_le_iff field_simps)
qed

text \<open>
  C9: the table of \<open>run\<close> has six rows. The row of the original shows \<open>-\<close> in place of
  a distance. Each other row shows the distance \<open>d\<close> between its bits and the bits of
  the original, followed by \<open>/256 bits changed (\<close>, the percentage and \<open>%)\<close>; the
  percentage is \<open>d / 256 * 100\<close> rounded to the nearest tenth and printed with one digit
  after the point.
\<close>

theorem table_original_row_has_no_distance:
  "length (table_rows (run input)) = 6 \<and>
   cell_changed (table_rows (run input) ! 0) = str ''-'' \<and>
   (\<forall>i. 1 \<le> i \<and> i < 6 \<longrightarrow>
      (let d = hamming (bits (run input ! 0)) (bits (run input ! i));
           t = (d * 1000 + 128) div 256
       in cell_changed (table_rows (run input) ! i) =
            radix_digits 10 d @ str ''/256 bits changed ('' @ radix_digits 10 (t div 10)
              @ str ''.'' @ [digit_unit (t mod 10)] @ str ''%)'' \<and>
          d \<le> 256 \<and>
          \<bar>rat_of_nat t / 10 - rat_of_nat d / 256 * 100\<bar> \<le> 1 / 20))"
proof (intro conjI allI impI)
  show "length (table_rows (run input)) = 6"
    by (simp add: length_run)
  show "cell_changed (table_rows (run input) ! 0) = str ''-''"
    by (simp add: table_rows_nth length_run table_row_of_def)
  fix i :: nat
  assume i: "1 \<le> i \<and> i < 6"
  then have mem: "run input ! i \<in> set (run input)"
    by (intro nth_mem) (simp add: length_run)
  define d where "d = hamming (bits (run input ! 0)) (bits (run input ! i))"
  have dist_d: "dist (baseBits (run input)) (run input ! i) = d"
    using dist_run [OF mem] by (simp add: d_def baseBits_run_nth)
  have cell: "cell_changed (table_rows (run input) ! i) =
      radix_digits 10 d @ str ''/256 bits changed ('' @ pct d @ str ''%)''"
    using i by (simp add: table_rows_nth length_run table_row_of_def dist_d)
  have le: "d \<le> 256"
    using dist_run_le [OF mem] by (simp add: dist_d)
  show "let d = hamming (bits (run input ! 0)) (bits (run input ! i));
            t = (d * 1000 + 128) div 256
        in cell_changed (table_rows (run input) ! i) =
             radix_digits 10 d @ str ''/256 bits changed ('' @ radix_digits 10 (t div 10)
               @ str ''.'' @ [digit_unit (t mod 10)] @ str ''%)'' \<and>
           d \<le> 256 \<and>
           \<bar>rat_of_nat t / 10 - rat_of_nat d / 256 * 100\<bar> \<le> 1 / 20"
    unfolding Let_def d_def [symmetric]
    using cell le tenths_nearest [of d] by (simp add: pct_digits)
qed

theorem table_original_row_has_no_distance_witness:
  "cell_changed (table_rows (run (str '''')) ! 0) = str ''-'' \<and>
   cell_changed (table_rows (run (str '''')) ! 1) = str ''142/256 bits changed (55.5%)'' \<and>
   hamming (bits (run (str '''') ! 0)) (bits (run (str '''') ! 1)) = 142"
proof -
  have d: "hamming (bits (run (str '''') ! 0)) (bits (run (str '''') ! 1)) = 142"
    by (simp add: run_eq encode_empty hamming_empty_space)
  have r: "radix_digits 10 142 @ str ''/256 bits changed (''
      @ radix_digits 10 ((142 * 1000 + 128) div 256 div 10) @ str ''.''
      @ [digit_unit ((142 * 1000 + 128) div 256 mod 10)] @ str ''%)''
      = str ''142/256 bits changed (55.5%)''"
    by (simp add: radix_digits.simps digit_unit_def str_def cu_def)
  note T = table_original_row_has_no_distance [of "str ''''"]
  have "let d = hamming (bits (run (str '''') ! 0)) (bits (run (str '''') ! 1));
            t = (d * 1000 + 128) div 256
        in cell_changed (table_rows (run (str '''')) ! 1) =
             radix_digits 10 d @ str ''/256 bits changed ('' @ radix_digits 10 (t div 10)
               @ str ''.'' @ [digit_unit (t mod 10)] @ str ''%)'' \<and>
           d \<le> 256 \<and>
           \<bar>rat_of_nat t / 10 - rat_of_nat d / 256 * 100\<bar> \<le> 1 / 20"
    by (rule mp [OF spec [OF conjunct2 [OF conjunct2 [OF T]]]]) simp
  then have "cell_changed (table_rows (run (str '''')) ! 1) = str ''142/256 bits changed (55.5%)''"
    unfolding Let_def d r by (rule conjunct1)
  with conjunct1 [OF conjunct2 [OF T]] d show ?thesis by simp
qed

text \<open>
  C10: for a non-empty input each mutation helper returns as many bytes as the UTF-8
  encoding of the input has, equal to the encoding at every index but the targeted one:
  \<open>byteIndex % length\<close> for \<open>mutateByteFlip\<close>, and for \<open>mutateCharChange\<close> the index
  that the program computes as \<open>(index + length) % length\<close>, with the sum rounded as
  a double. On the store, each helper leaves every array that existed before the call as
  it was and returns a new array.
\<close>

theorem mutation_frame:
  "input \<noteq> [] \<Longrightarrow>
   0 < length (TextEncoder_encode input) \<and>
   length (mutateByteFlip input byteIndex bitMask) = length (TextEncoder_encode input) \<and>
   (\<forall>j < length (TextEncoder_encode input).
      int j \<noteq> js_rem byteIndex (int (length (TextEncoder_encode input))) \<longrightarrow>
      mutateByteFlip input byteIndex bitMask ! j = TextEncoder_encode input ! j) \<and>
   length (mutateCharChange input index newChar) = length (TextEncoder_encode input) \<and>
   (\<forall>j < length (TextEncoder_encode input).
      Num (int j) \<noteq> js_rem_number (js_add_length index (length (TextEncoder_encode input)))
                        (int (length (TextEncoder_encode input))) \<longrightarrow>
      mutateCharChange input index newChar ! j = TextEncoder_encode input ! j) \<and>
   (case mutateByteFlip_heap input byteIndex bitMask h of
      (a, h') \<Rightarrow>
        take (length h) h' = h \<and> length h \<le> a \<and> a < length h' \<and>
        h' ! a = mutateByteFlip input byteIndex bitMask) \<and>
   (case mutateCharChange_heap input index newChar h of
      (a, h') \<Rightarrow>
        take (length h) h' = h \<and> length h \<le> a \<and> a < length h' \<and>
        h' ! a = mutateCharChange input index newChar)"
proof -
  assume "input \<noteq> []"
  then have ne: "TextEncoder_encode input \<noteq> []"
    by (rule TextEncoder_encode_nonempty)
  show ?thesis
    using ne
    by (simp add: length_mutateByteFlip length_mutateCharChange nth_mutateByteFlip_other
        nth_mutateCharChange_other mutateByteFlip_heap_eq mutateCharChange_heap_eq nth_append)
qed

theorem mutation_frame_witness:
  "str ''abc'' \<noteq> [] \<and>
   TextEncoder_encode (str ''abc'') = [0x61, 0x62, 0x63] \<and>
   length (mutateByteFlip (str ''abc'') 0 1) = 3 \<and>
   mutateByteFlip (str ''abc'') 0 1 ! 1 = 0x62 \<and>
   mutateByteFlip (str ''abc'') 0 1 ! 2 = 0x63 \<and>
   length (mutateCharChange (str ''abc'') (2 ^ 53) (str ''z'')) = 3 \<and>
   mutateCharChange (str ''abc'') (2 ^ 53) (str ''z'') ! 1 = 0x62 \<and>
   mutateCharChange (str ''abc'') (2 ^ 53) (str ''z'') ! 2 = 0x63"
proof -
  have ne: "str ''abc'' \<noteq> []" by (simp add: str_def)
  have enc: "TextEncoder_encode (str ''abc'') = [0x61, 0x62, 0x63]" by code_simp
  have w: "bit_width (nat \<bar>2 ^ 53 + 3\<bar>) = 54"
    by (simp add: bit_width_numeral)
  have "round_double (2 ^ 53 + 3) = Some (2 ^ 53 + 4)"
    unfolding round_double_def w Let_def by simp
  then have k: "js_rem_number (js_add_length (2 ^ 53) 3) (int 3) = Num 0"
    by (simp add: js_add_length_def js_rem_number_def js_rem_def)
  have len: "length [0x61, 0x62, 0x63 :: byte] = 3" by simp
  note M = mutation_frame [OF ne, of 0 1 "2 ^ 53" "str ''z''" "[]", unfolded enc len k]
  from M ne enc show ?thesis
    by (simp add: js_rem_def All_less_Suc numeral_2_eq_2 numeral_3_eq_3)
qed

end
